theory Spec2Isabelle
  imports Main "HOL-Library.Char_ord" "HOL-Library.List_Lexorder" "HOL-Library.Multiset"
begin

section \<open>Shared conventions\<close>

text \<open>
  Go strings and byte slices are sequences of bytes; they are modelled as \<open>string\<close>
  (a list of 8-bit \<open>char\<close>). Go compares strings bytewise and lexicographically, which is
  the order that \<open>Char_ord\<close> and \<open>List_Lexorder\<close> put on \<open>string\<close>.
  A run-time panic of the Go code is a value of type \<open>panic\<close>; a function that can
  panic returns \<open>panic + 'a\<close>.
\<close>

datatype panic = NilPointerDereference | IndexOutOfRange

section \<open>tools/please_go_tool/remote/remote.go: \<open>jsonPackages.UniqueDeps\<close>\<close>

text \<open>
  The fields of \<open>jsonPackage\<close> that the functions modelled here read. The Go struct has
  further fields (file lists, cgo flags, the git annotations) that \<open>UniqueDeps\<close> never
  touches.
\<close>

record jsonPackage =
  Dir :: string
  Root :: string
  ImportPath :: string
  Standard :: bool
  Imports :: "string list"
  Deps :: "string list"

text \<open>\<open>type jsonPackages []*jsonPackage\<close>: a slice of pointers, each of which may be nil.\<close>

type_synonym jsonPackages = "jsonPackage option list"

text \<open>
  \<open>m := map[string]struct{}{}\<close> is a set of keys. It is kept as the list of its keys,
  without repetition; \<open>m[k] = struct{}{}\<close> adds \<open>k\<close> unless it is already a key.
\<close>

definition map_set :: "string \<Rightarrow> string list \<Rightarrow> string list" where
  "map_set k m = (if k \<in> set m then m else m @ [k])"

text \<open>
  The outer loop \<open>for _, jp := range jps\<close>: the inner loop stores every entry of
  \<open>jp.Deps\<close>, then \<open>jp.ImportPath\<close> is stored. Reading a field through a nil pointer
  panics.
\<close>

fun collect_deps :: "jsonPackages \<Rightarrow> string list \<Rightarrow> panic + string list" where
  "collect_deps [] m = Inr m"
| "collect_deps (None # jps) m = Inl NilPointerDereference"
| "collect_deps (Some jp # jps) m =
     collect_deps jps (map_set (ImportPath jp) (fold map_set (Deps jp) m))"

text \<open>
  \<open>for pkg := range m\<close> visits the keys of a Go map in an order the language leaves
  unspecified. The order is the parameter \<open>range_order\<close>, which rearranges the keys;
  \<open>sort.Strings\<close> then sorts the slice in increasing order.
\<close>

definition UniqueDeps :: "(string list \<Rightarrow> string list) \<Rightarrow> jsonPackages \<Rightarrow> panic + string list" where
  "UniqueDeps range_order jps =
     (case collect_deps jps [] of
        Inl e \<Rightarrow> Inl e
      | Inr m \<Rightarrow> Inr (sort (range_order m)))"

text \<open>The strings the claim speaks of: every entry of every \<open>Deps\<close>, and every \<open>ImportPath\<close>.\<close>

definition all_deps :: "jsonPackages \<Rightarrow> string set" where
  "all_deps jps = (\<Union>jp \<in> set jps. case jp of None \<Rightarrow> {} | Some p \<Rightarrow> set (Deps p) \<union> {ImportPath p})"

section \<open>Properties of \<open>UniqueDeps\<close>\<close>

lemma distinct_map_set: "distinct m \<Longrightarrow> distinct (map_set k m)"
  by (simp add: map_set_def)

lemma set_map_set: "set (map_set k m) = insert k (set m)"
  by (auto simp: map_set_def)

lemma distinct_fold_map_set: "distinct m \<Longrightarrow> distinct (fold map_set ks m)"
  by (induction ks arbitrary: m) (simp_all add: distinct_map_set)

lemma set_fold_map_set: "set (fold map_set ks m) = set ks \<union> set m"
  by (induction ks arbitrary: m) (auto simp: set_map_set)

lemma collect_deps_ok:
  "None \<notin> set jps \<Longrightarrow> distinct m \<Longrightarrow>
   \<exists>m'. collect_deps jps m = Inr m' \<and> distinct m' \<and> set m' = set m \<union> all_deps jps"
proof (induction jps m rule: collect_deps.induct)
  case (1 m)
  then show ?case by (simp add: all_deps_def)
next
  case (2 jps m)
  then show ?case by simp
next
  case (3 jp jps m)
  let ?m1 = "map_set (ImportPath jp) (fold map_set (Deps jp) m)"
  have d: "distinct ?m1"
    using "3.prems"(2) by (simp add: distinct_map_set distinct_fold_map_set)
  have n: "None \<notin> set jps" using "3.prems"(1) by simp
  from "3.IH" [OF n d] obtain m' where
    m': "collect_deps jps ?m1 = Inr m'" "distinct m'" "set m' = set ?m1 \<union> all_deps jps"
    by blast
  have "set ?m1 \<union> all_deps jps = set m \<union> all_deps (Some jp # jps)"
    by (auto simp: set_map_set set_fold_map_set all_deps_def)
  with m' show ?case by simp
qed

text \<open>
  Claim C10. For every list of (non-nil) packages, and whatever order the map is ranged
  over, \<open>UniqueDeps\<close> returns a list that is sorted in the lexicographic order of strings,
  has no duplicates, and whose elements are exactly the entries of every package's
  \<open>Deps\<close> together with every package's \<open>ImportPath\<close>.
\<close>

theorem UniqueDeps_sorted_distinct_union:
  assumes perm: "\<And>ks. mset (range_order ks) = mset ks"
    and nonnil: "None \<notin> set jps"
  shows "\<exists>ret. UniqueDeps range_order jps = Inr ret \<and> sorted ret \<and> distinct ret
           \<and> set ret = all_deps jps"
proof -
  from collect_deps_ok [OF nonnil, of "[]"] obtain m where
    m: "collect_deps jps [] = Inr m" "distinct m" "set m = all_deps jps"
    by auto
  have s: "set (range_order m) = set m"
    using perm [of m] by (rule mset_eq_setD)
  have d: "distinct (range_order m)"
    using perm [of m] m(2) by (metis mset_eq_imp_distinct_iff)
  show ?thesis
    using m s d by (simp add: UniqueDeps_def)
qed

definition pkgA :: jsonPackage where
  "pkgA = \<lparr>Dir = ''/go/src/b'', Root = ''/go'', ImportPath = ''b'', Standard = False,
           Imports = [''fmt''], Deps = [''fmt'', ''a'', ''fmt'']\<rparr>"

definition pkgB :: jsonPackage where
  "pkgB = \<lparr>Dir = ''/go/src/a'', Root = ''/go'', ImportPath = ''a'', Standard = False,
           Imports = [], Deps = []\<rparr>"

theorem UniqueDeps_sorted_distinct_union_witness:
  "UniqueDeps rev [Some pkgA, Some pkgB] = Inr [''a'', ''b'', ''fmt'']
   \<and> (\<exists>ret. UniqueDeps rev [Some pkgA, Some pkgB] = Inr ret \<and> sorted ret \<and> distinct ret
           \<and> set ret = all_deps [Some pkgA, Some pkgB])"
proof -
  have e: "UniqueDeps rev [Some pkgA, Some pkgB] = Inr [''a'', ''b'', ''fmt'']"
    by (simp add: UniqueDeps_def pkgA_def pkgB_def map_set_def)
  have p: "\<And>ks :: string list. mset (rev ks) = mset ks" by simp
  have n: "None \<notin> set [Some pkgA, Some pkgB]" by simp
  from UniqueDeps_sorted_distinct_union [of rev, OF p n] e show ?thesis by simp
qed

section \<open>Go library functions that the test-main generator calls\<close>

text \<open>
  \<open>utf8.DecodeRuneInString\<close> of the Go standard library: the first rune of a byte
  string and the number of bytes it occupies. The empty string gives
  \<open>(RuneError, 0)\<close>, an invalid or truncated encoding \<open>(RuneError, 1)\<close>. Overlong
  encodings, surrogates and values above \<open>U+10FFFF\<close> are invalid: the second byte must
  lie in the range that the first byte accepts. Runes are natural numbers; masking a
  byte is written \<open>mod\<close>, shifting is written as a multiplication.
\<close>

definition RuneError :: nat where
  "RuneError = 0xFFFD"

definition first_size :: "nat \<Rightarrow> nat" where
  "first_size s0 = (if s0 < 0xE0 then 2 else if s0 < 0xF0 then 3 else 4)"

definition accept_lo :: "nat \<Rightarrow> nat" where
  "accept_lo s0 = (if s0 = 0xE0 then 0xA0 else if s0 = 0xF0 then 0x90 else 0x80)"

definition accept_hi :: "nat \<Rightarrow> nat" where
  "accept_hi s0 = (if s0 = 0xED then 0x9F else if s0 = 0xF4 then 0x8F else 0xBF)"

definition byte_at :: "string \<Rightarrow> nat \<Rightarrow> nat" where
  "byte_at s i = of_char (s ! i)"

definition DecodeRuneInString :: "string \<Rightarrow> nat \<times> nat" where
  "DecodeRuneInString s =
     (if length s < 1 then (RuneError, 0)
      else let s0 = byte_at s 0 in
        if s0 < 0x80 then (s0, 1)
        else if s0 < 0xC2 \<or> 0xF4 < s0 then (RuneError, 1)
        else let sz = first_size s0 in
          if length s < sz then (RuneError, 1)
          else let s1 = byte_at s 1 in
            if s1 < accept_lo s0 \<or> accept_hi s0 < s1 then (RuneError, 1)
            else if sz \<le> 2 then ((s0 mod 32) * 64 + s1 mod 64, 2)
            else let s2 = byte_at s 2 in
              if s2 < 0x80 \<or> 0xBF < s2 then (RuneError, 1)
              else if sz \<le> 3 then ((s0 mod 16) * 4096 + (s1 mod 64) * 64 + s2 mod 64, 3)
              else let s3 = byte_at s 3 in
                if s3 < 0x80 \<or> 0xBF < s3 then (RuneError, 1)
                else ((s0 mod 8) * 262144 + (s1 mod 64) * 4096 + (s2 mod 64) * 64 + s3 mod 64, 4))"

text \<open>
  \<open>unicode.IsLower\<close>: for a rune up to \<open>U+00FF\<close> the answer comes from the Latin-1
  property table (the letters \<open>a\<close> to \<open>z\<close>, the micro sign, and \<open>U+00DF\<close> to
  \<open>U+00FF\<close> except the division sign); above it, from the range table of the category
  \<open>Ll\<close>, which is the parameter \<open>Ll\<close>.
\<close>

definition IsLower :: "(nat \<Rightarrow> bool) \<Rightarrow> nat \<Rightarrow> bool" where
  "IsLower Ll r =
     (if r \<le> 0xFF
      then (0x61 \<le> r \<and> r \<le> 0x7A) \<or> r = 0xB5 \<or> (0xDF \<le> r \<and> r \<noteq> 0xF7)
      else Ll r)"

text \<open>\<open>strings.HasPrefix\<close>: \<open>len(s) >= len(prefix) && s[0:len(prefix)] == prefix\<close>.\<close>

definition HasPrefix :: "string \<Rightarrow> string \<Rightarrow> bool" where
  "HasPrefix s pfx = (length s \<ge> length pfx \<and> take (length pfx) s = pfx)"

lemmas go_library_defs = HasPrefix_def DecodeRuneInString_def IsLower_def byte_at_def
  first_size_def accept_lo_def accept_hi_def RuneError_def

section \<open>The test-main generator: \<open>isTest\<close>\<close>

definition isTest :: "(nat \<Rightarrow> bool) \<Rightarrow> string \<Rightarrow> string \<Rightarrow> bool" where
  "isTest Ll name pfx =
     (if \<not> HasPrefix name pfx then False
      else if length name = length pfx then True
      else \<not> IsLower Ll (fst (DecodeRuneInString (drop (length pfx) name))))"

lemma HasPrefix_iff: "HasPrefix s pfx \<longleftrightarrow> (\<exists>rest. s = pfx @ rest)"
proof
  assume "HasPrefix s pfx"
  then have "s = pfx @ drop (length pfx) s"
    by (metis HasPrefix_def append_take_drop_id)
  then show "\<exists>rest. s = pfx @ rest" ..
next
  assume "\<exists>rest. s = pfx @ rest"
  then show "HasPrefix s pfx" by (auto simp: HasPrefix_def)
qed

text \<open>
  Claim C8. \<open>isTest name prefix\<close> is true if and only if \<open>name\<close> is \<open>prefix\<close>
  followed by some \<open>rest\<close>, and either \<open>rest\<close> is empty (the name is the prefix itself)
  or the first rune of \<open>rest\<close> is not a lowercase letter.
\<close>

theorem isTest_iff:
  "isTest Ll name pfx \<longleftrightarrow>
     (\<exists>rest. name = pfx @ rest \<and> (rest = [] \<or> \<not> IsLower Ll (fst (DecodeRuneInString rest))))"
proof (cases "HasPrefix name pfx")
  case False
  then show ?thesis by (simp add: isTest_def HasPrefix_iff)
next
  case True
  then obtain rest where r: "name = pfx @ rest" by (auto simp: HasPrefix_iff)
  have "isTest Ll name pfx \<longleftrightarrow> rest = [] \<or> \<not> IsLower Ll (fst (DecodeRuneInString rest))"
    using True by (auto simp: isTest_def r)
  then show ?thesis using r by auto
qed

text \<open>
  The examples of the claim, and two more: a name shorter than the prefix, and a name
  whose first rune after the prefix is the two-byte lowercase letter \<open>U+00E9\<close>. All
  their runes are below \<open>U+0100\<close>, so the table for the higher runes is never asked.
\<close>

theorem isTest_iff_witness:
  "isTest (\<lambda>r. False) ''Test'' ''Test'' \<and> isTest (\<lambda>r. False) ''TestFoo'' ''Test'' \<and> \<not> isTest (\<lambda>r. False) ''Testfoo'' ''Test''
   \<and> \<not> isTest (\<lambda>r. False) ''Tes'' ''Test''
   \<and> \<not> isTest (\<lambda>r. False) (''Test'' @ [CHR 0xC3, CHR 0xA9]) ''Test''"
proof -
  have a: "isTest (\<lambda>r. False) ''Test'' ''Test''"
    unfolding isTest_iff by simp
  have b: "isTest (\<lambda>r. False) ''TestFoo'' ''Test''"
    unfolding isTest_iff by (simp add: go_library_defs)
  have c: "\<not> isTest (\<lambda>r. False) ''Testfoo'' ''Test''"
    unfolding isTest_iff by (simp add: go_library_defs)
  have d: "\<not> isTest (\<lambda>r. False) ''Tes'' ''Test''"
    unfolding isTest_iff by simp
  have e: "\<not> isTest (\<lambda>r. False) (''Test'' @ [CHR 0xC3, CHR 0xA9]) ''Test''"
    unfolding isTest_iff by (simp add: go_library_defs)
  from a b c d e show ?thesis by blast
qed

section \<open>The test-main generator: \<open>isVersion18\<close>\<close>

text \<open>
  \<open>isVersion18\<close> searches the output of \<open>go version\<close> with the regular expression
  \<open>go version go1.([0-9]+)[^0-9].*\<close>. The expression is matched the way Go's
  \<open>regexp\<close> package does it: the leftmost match wins, and among the matches that start
  there the greedy \<open>+\<close> prefers the longest run of digits. The dot after \<open>go1\<close> is not
  escaped in the source, so it stands for any rune but a newline. Each piece of the
  expression is a function from the remaining input to the input left after the piece,
  or \<open>None\<close> when the piece does not match.
\<close>

definition is_digit :: "char \<Rightarrow> bool" where
  "is_digit c = (0x30 \<le> (of_char c :: nat) \<and> (of_char c :: nat) \<le> 0x39)"

definition version_literal :: string where
  "version_literal = ''go version go1''"

text \<open>\<open>.\<close>: one rune, of any width, that is not a newline.\<close>

definition match_dot :: "string \<Rightarrow> string option" where
  "match_dot s =
     (case DecodeRuneInString s of
        (r, w) \<Rightarrow> if w = 0 \<or> r = 0x0A then None else Some (drop w s))"

text \<open>\<open>[^0-9]\<close>: one rune that is not a decimal digit; a newline is accepted.\<close>

definition match_nondigit :: "string \<Rightarrow> string option" where
  "match_nondigit s =
     (case DecodeRuneInString s of
        (r, w) \<Rightarrow> if w = 0 \<or> (0x30 \<le> r \<and> r \<le> 0x39) then None else Some (drop w s))"



subsection \<open>Facts about the decoder\<close>

lemma Decode_width_le: "snd (DecodeRuneInString s) \<le> length s"
  by (cases s) (simp_all add: DecodeRuneInString_def Let_def first_size_def Suc_le_eq)

lemma Decode_width_pos: "s \<noteq> [] \<Longrightarrow> 1 \<le> snd (DecodeRuneInString s)"
  by (cases s) (simp_all add: DecodeRuneInString_def Let_def first_size_def)

lemma Decode_empty: "snd (DecodeRuneInString s) = 0 \<longleftrightarrow> s = []"
  using Decode_width_pos [of s] by (cases "s = []") (auto simp: DecodeRuneInString_def)

lemma Decode_ascii: "of_char c < (0x80::nat) \<Longrightarrow> DecodeRuneInString (c # cs) = (of_char c, 1)"
  by (simp add: DecodeRuneInString_def byte_at_def)



lemma Decode_multibyte:
  fixes s :: string
  defines "s0 \<equiv> byte_at s 0" and "s1 \<equiv> byte_at s 1" and "s2 \<equiv> byte_at s 2" and "s3 \<equiv> byte_at s 3"
  assumes "s \<noteq> []" "0x80 \<le> s0"
  shows "fst (DecodeRuneInString s) = RuneError
       \<or> (0xC2 \<le> s0 \<and> s0 < 0xE0 \<and> fst (DecodeRuneInString s) = (s0 mod 32) * 64 + s1 mod 64)
       \<or> (0xE0 \<le> s0 \<and> s0 < 0xF0 \<and> accept_lo s0 \<le> s1 \<and> s1 \<le> accept_hi s0
            \<and> fst (DecodeRuneInString s) = (s0 mod 16) * 4096 + (s1 mod 64) * 64 + s2 mod 64)
       \<or> (0xF0 \<le> s0 \<and> s0 \<le> 0xF4 \<and> accept_lo s0 \<le> s1 \<and> s1 \<le> accept_hi s0
            \<and> fst (DecodeRuneInString s) = (s0 mod 8) * 262144 + (s1 mod 64) * 4096 + (s2 mod 64) * 64 + s3 mod 64)"
  using assms(5,6) unfolding DecodeRuneInString_def Let_def first_size_def s0_def s1_def s2_def s3_def
  by (simp add: not_less not_le)




lemma mod_window: "q * m \<le> n \<Longrightarrow> n < q * m + m \<Longrightarrow> (n::nat) mod m = n - q * m"
proof -
  assume a: "q * m \<le> n" "n < q * m + m"
  then have "n = (n - q * m) + q * m" by simp
  then have "n mod m = ((n - q * m) + q * m) mod m" by simp
  also have "\<dots> = (n - q * m) mod m" by (rule mod_mult_self1)
  also have "\<dots> = n - q * m" using a by simp
  finally show ?thesis .
qed

lemma lead2: "0xC2 \<le> s0 \<Longrightarrow> s0 < 0xE0 \<Longrightarrow> 2 \<le> (s0::nat) mod 32"
proof -
  assume a: "0xC2 \<le> s0" "s0 < 0xE0"
  have "s0 mod 32 = s0 - 6 * 32" by (rule mod_window) (use a in simp_all)
  then show ?thesis using a by simp
qed

lemma lead3: "0xE0 < s0 \<Longrightarrow> s0 < 0xF0 \<Longrightarrow> 1 \<le> (s0::nat) mod 16"
proof -
  assume a: "0xE0 < s0" "s0 < 0xF0"
  have "s0 mod 16 = s0 - 14 * 16" by (rule mod_window) (use a in simp_all)
  then show ?thesis using a by simp
qed

lemma lead4: "0xF0 < s0 \<Longrightarrow> s0 \<le> 0xF4 \<Longrightarrow> 1 \<le> (s0::nat) mod 8"
proof -
  assume a: "0xF0 < s0" "s0 \<le> 0xF4"
  have "s0 mod 8 = s0 - 30 * 8" by (rule mod_window) (use a in simp_all)
  then show ?thesis using a by simp
qed

lemma cont3: "0xA0 \<le> s1 \<Longrightarrow> s1 \<le> 0xBF \<Longrightarrow> 32 \<le> (s1::nat) mod 64"
proof -
  assume a: "0xA0 \<le> s1" "s1 \<le> 0xBF"
  have "s1 mod 64 = s1 - 2 * 64" by (rule mod_window) (use a in simp_all)
  then show ?thesis using a by simp
qed

lemma cont4: "0x90 \<le> s1 \<Longrightarrow> s1 \<le> 0xBF \<Longrightarrow> 16 \<le> (s1::nat) mod 64"
proof -
  assume a: "0x90 \<le> s1" "s1 \<le> 0xBF"
  have "s1 mod 64 = s1 - 2 * 64" by (rule mod_window) (use a in simp_all)
  then show ?thesis using a by simp
qed


lemma Decode_high:
  assumes "(0x80::nat) \<le> of_char c" shows "0x80 \<le> fst (DecodeRuneInString (c # cs))"
proof -
  define s0 :: nat where "s0 = byte_at (c # cs) 0"
  define s1 :: nat where "s1 = byte_at (c # cs) 1"
  define r where "r = fst (DecodeRuneInString (c # cs))"
  have h: "0x80 \<le> byte_at (c # cs) 0" using assms by (simp add: byte_at_def)
  have ne: "c # cs \<noteq> []" by simp
  note m = Decode_multibyte [OF ne h, folded s0_def s1_def r_def]
  from m have "128 \<le> r"
  proof (elim disjE conjE)
    assume "r = RuneError"
    then show ?thesis by (simp add: RuneError_def)
  next
    assume "0xC2 \<le> s0" "s0 < 0xE0" and r: "r = s0 mod 32 * 64 + s1 mod 64"
    then have "2 \<le> s0 mod 32" by (simp add: lead2)
    then show ?thesis unfolding r by linarith
  next
    assume s: "0xE0 \<le> s0" "s0 < 0xF0" "accept_lo s0 \<le> s1" "s1 \<le> accept_hi s0"
      and r: "r = s0 mod 16 * 4096 + s1 mod 64 * 64 + byte_at (c # cs) 2 mod 64"
    show ?thesis
    proof (cases "s0 = 0xE0")
      case True
      with s have "32 \<le> s1 mod 64" by (simp add: accept_lo_def accept_hi_def cont3)
      then show ?thesis unfolding r by linarith
    next
      case False
      with s have "0xE0 < s0" by simp
      with s have "1 \<le> s0 mod 16" by (intro lead3)
      then show ?thesis unfolding r by linarith
    qed
  next
    assume s: "0xF0 \<le> s0" "s0 \<le> 0xF4" "accept_lo s0 \<le> s1" "s1 \<le> accept_hi s0"
      and r: "r = s0 mod 8 * 262144 + s1 mod 64 * 4096 + byte_at (c # cs) 2 mod 64 * 64
                + byte_at (c # cs) 3 mod 64"
    show ?thesis
    proof (cases "s0 = 0xF0")
      case True
      with s have "16 \<le> s1 mod 64" by (simp add: accept_lo_def accept_hi_def cont4)
      then show ?thesis unfolding r by linarith
    next
      case False
      with s have "0xF0 < s0" by simp
      with s have "1 \<le> s0 mod 8" by (intro lead4)
      then show ?thesis unfolding r by linarith
    qed
  qed
  then show ?thesis by (simp add: r_def)
qed


text \<open>
  \<open>.*\<close> cannot fail: it takes runes up to the next newline or the end of the input
  and returns what is left.
\<close>

lemma match_dot_shorter: "match_dot s = Some rest \<Longrightarrow> length rest < length s"
proof -
  assume a: "match_dot s = Some rest"
  obtain r w where d: "DecodeRuneInString s = (r, w)" by (cases "DecodeRuneInString s")
  with a have w: "w \<noteq> 0" "rest = drop w s" by (auto simp: match_dot_def split: if_splits)
  from w(1) d have "s \<noteq> []" using Decode_empty [of s] by auto
  with w show ?thesis by simp
qed

function match_dot_star :: "string \<Rightarrow> string" where
  "match_dot_star s = (case match_dot s of None \<Rightarrow> s | Some rest \<Rightarrow> match_dot_star rest)"
  by pat_completeness auto
termination
  by (relation "measure length") (auto simp: match_dot_shorter)

declare match_dot_star.simps [simp del]

text \<open>
  \<open>([0-9]+)[^0-9]\<close>, tried with the first \<open>n\<close> bytes as the digits, then with fewer:
  the result is the captured digits and the input after the rune that follows them.
\<close>

fun match_digits :: "nat \<Rightarrow> string \<Rightarrow> (string \<times> string) option" where
  "match_digits 0 s = None"
| "match_digits (Suc n) s =
     (case match_nondigit (drop (Suc n) s) of
        Some rest \<Rightarrow> Some (take (Suc n) s, rest)
      | None \<Rightarrow> match_digits n s)"

text \<open>
  The whole expression at the start of \<open>s\<close>. The result is the slice that
  \<open>FindSubmatch\<close> returns for a match there, the whole match followed by the captured
  group, or the empty list.
\<close>

definition match_here :: "string \<Rightarrow> string list" where
  "match_here s =
     (if \<not> HasPrefix s version_literal then []
      else case match_dot (drop (length version_literal) s) of
        None \<Rightarrow> []
      | Some s1 \<Rightarrow>
          (case match_digits (length (takeWhile is_digit s1)) s1 of
             None \<Rightarrow> []
           | Some (ds, s2) \<Rightarrow> [take (length s - length (match_dot_star s2)) s, ds]))"

text \<open>
  The search is not anchored: the start positions are tried from left to right. The
  literal begins with the ASCII letter \<open>g\<close>, which is never a byte inside a multi-byte
  rune, so stepping by bytes finds the same first match as stepping by runes.
\<close>

fun FindSubmatch :: "string \<Rightarrow> string list" where
  "FindSubmatch [] = match_here []"
| "FindSubmatch (c # cs) = (case match_here (c # cs) of [] \<Rightarrow> FindSubmatch cs | m \<Rightarrow> m)"

text \<open>
  \<open>strconv.Atoi\<close> is \<open>ParseInt(s, 10, 0)\<close>: an optional sign, then decimal digits. A
  number outside the range of \<open>int\<close> (of \<open>bits\<close> bits) is replaced by the nearest bound
  and reported as \<open>ErrRange\<close>; anything else that is not a number gives \<open>0\<close> and
  \<open>ErrSyntax\<close>.
\<close>

datatype NumError = ErrSyntax | ErrRange

definition digit_val :: "char \<Rightarrow> nat" where
  "digit_val c = of_char c - 0x30"

definition decimal :: "string \<Rightarrow> nat" where
  "decimal s = fold (\<lambda>c n. 10 * n + digit_val c) s 0"

definition ParseUint :: "string \<Rightarrow> nat option" where
  "ParseUint s = (if s = [] \<or> \<not> list_all is_digit s then None else Some (decimal s))"

definition Atoi :: "nat \<Rightarrow> string \<Rightarrow> int \<times> NumError option" where
  "Atoi bits s =
     (let neg = (s \<noteq> [] \<and> hd s = CHR ''-'');
          body = (if s \<noteq> [] \<and> (hd s = CHR ''+'' \<or> hd s = CHR ''-'') then tl s else s);
          cutoff = 2 ^ (bits - 1)
      in case ParseUint body of
           None \<Rightarrow> (0, Some ErrSyntax)
         | Some un \<Rightarrow>
             if \<not> neg \<and> un \<ge> cutoff then (int cutoff - 1, Some ErrRange)
             else if neg \<and> un > cutoff then (- int cutoff, Some ErrRange)
             else (if neg then - int un else int un, None))"

text \<open>
  \<open>isVersion18\<close> itself. The warning it logs is returned with the result; \<open>m[1]\<close> on a
  slice with fewer than two elements would panic; the error of \<open>Atoi\<close> is discarded.
\<close>

datatype log_entry = Warning string

definition isVersion18 :: "nat \<Rightarrow> string \<Rightarrow> panic + bool \<times> log_entry list" where
  "isVersion18 bits version =
     (let m = FindSubmatch version in
      if length m = 0 then Inr (False, [Warning (''Failed to match '' @ version)])
      else if length m \<le> 1 then Inl IndexOutOfRange
      else let (v, err) = Atoi bits (m ! 1) in Inr (v \<ge> 8, []))"

lemmas regexp_defs = match_here_def match_dot_star.simps match_dot_def match_nondigit_def version_literal_def
  is_digit_def go_library_defs


text \<open>
  What it means that the input matches the pattern at byte offset \<open>i\<close> with the minor
  version \<open>ds\<close>: the input is some \<open>pre\<close> of length \<open>i\<close>, then \<open>go version go1\<close>, then
  the encoding \<open>c\<close> of one rune that is not a newline, then the digits \<open>ds\<close>, then a byte
  \<open>nd\<close> that is not a digit, then anything.
\<close>

definition pattern_at :: "string \<Rightarrow> nat \<Rightarrow> string \<Rightarrow> bool" where
  "pattern_at version i ds \<longleftrightarrow>
     (\<exists>pre c nd rest.
        version = pre @ version_literal @ c @ ds @ nd # rest \<and> length pre = i
        \<and> c \<noteq> [] \<and> snd (DecodeRuneInString (c @ ds @ nd # rest)) = length c
        \<and> fst (DecodeRuneInString (c @ ds @ nd # rest)) \<noteq> 0x0A
        \<and> ds \<noteq> [] \<and> list_all is_digit ds \<and> \<not> is_digit nd)"

subsection \<open>The matcher against the pattern\<close>

lemma match_nondigit_Nil: "match_nondigit [] = None"
  by (simp add: match_nondigit_def DecodeRuneInString_def)

lemma match_nondigit_digit: "is_digit d \<Longrightarrow> match_nondigit (d # rest) = None"
  by (simp add: match_nondigit_def is_digit_def Decode_ascii)

lemma match_nondigit_other:
  assumes "\<not> is_digit c"
  shows "match_nondigit (c # rest) = Some (drop (snd (DecodeRuneInString (c # rest))) (c # rest))"
proof -
  obtain r w where d: "DecodeRuneInString (c # rest) = (r, w)"
    by (cases "DecodeRuneInString (c # rest)")
  have w: "w \<noteq> 0" using Decode_empty [of "c # rest"] d by auto
  have "\<not> (0x30 \<le> r \<and> r \<le> 0x39)"
  proof (cases "of_char c < (0x80::nat)")
    case True
    then have "r = of_char c" using d by (simp add: Decode_ascii)
    then show ?thesis using assms by (simp add: is_digit_def)
  next
    case False
    then have "0x80 \<le> r" using Decode_high [of c rest] d by simp
    then show ?thesis by simp
  qed
  then show ?thesis using d w by (auto simp: match_nondigit_def)
qed

lemma match_digits_None:
  "(\<And>j. 1 \<le> j \<Longrightarrow> j \<le> k \<Longrightarrow> match_nondigit (drop j s) = None) \<Longrightarrow> match_digits k s = None"
  by (induction k) simp_all

lemma drop_length_takeWhile: "drop (length (takeWhile P xs)) xs = dropWhile P xs"
  by (induction xs) simp_all

lemma take_length_takeWhile: "take (length (takeWhile P xs)) xs = takeWhile P xs"
  by (induction xs) simp_all

lemma match_digits_greedy:
  "match_digits (length (takeWhile is_digit s)) s =
     (if takeWhile is_digit s \<noteq> [] \<and> dropWhile is_digit s \<noteq> []
      then Some (takeWhile is_digit s,
                 drop (snd (DecodeRuneInString (dropWhile is_digit s))) (dropWhile is_digit s))
      else None)"
proof (cases "length (takeWhile is_digit s)")
  case 0
  then show ?thesis by simp
next
  case (Suc k)
  have dr: "drop (Suc k) s = dropWhile is_digit s"
    using drop_length_takeWhile [of is_digit s] Suc by simp
  have tk: "take (Suc k) s = takeWhile is_digit s"
    using take_length_takeWhile [of is_digit s] Suc by simp
  have ne: "takeWhile is_digit s \<noteq> []" using Suc by auto
  show ?thesis
  proof (cases "dropWhile is_digit s")
    case Nil
    have "match_digits k s = None"
    proof (rule match_digits_None)
      fix j assume j: "1 \<le> j" "j \<le> k"
      then have lt: "j < length (takeWhile is_digit s)" using Suc by simp
      then have js: "j < length s"
        using length_takeWhile_le [of is_digit s] by simp
      have "is_digit (s ! j)"
        using lt by (metis nth_mem set_takeWhileD takeWhile_nth)
      moreover have "drop j s = s ! j # drop (Suc j) s"
        using js by (simp add: Cons_nth_drop_Suc)
      ultimately show "match_nondigit (drop j s) = None"
        by (simp add: match_nondigit_digit)
    qed
    then show ?thesis using Suc dr Nil by (simp add: match_nondigit_Nil)
  next
    case (Cons c rest)
    then have "\<not> is_digit c" by (metis hd_dropWhile list.distinct(1) list.sel(1))
    then show ?thesis
      using Suc dr tk ne Cons by (simp add: match_nondigit_other)
  qed
qed






lemma match_here_shape: "match_here s = [] \<or> (\<exists>m0 ds. match_here s = [m0, ds])"
  by (auto simp: match_here_def split: option.splits)

lemma takeWhile_digits:
  "list_all is_digit ds \<Longrightarrow> \<not> is_digit nd \<Longrightarrow> takeWhile is_digit (ds @ nd # rest) = ds"
  by (induction ds) simp_all

lemma dropWhile_digits:
  "list_all is_digit ds \<Longrightarrow> \<not> is_digit nd \<Longrightarrow> dropWhile is_digit (ds @ nd # rest) = nd # rest"
  by (induction ds) simp_all

lemma pattern_atI:
  "version = pre @ version_literal @ c @ ds @ nd # rest \<Longrightarrow> length pre = i \<Longrightarrow> c \<noteq> [] \<Longrightarrow>
   snd (DecodeRuneInString (c @ ds @ nd # rest)) = length c \<Longrightarrow>
   fst (DecodeRuneInString (c @ ds @ nd # rest)) \<noteq> 0x0A \<Longrightarrow>
   ds \<noteq> [] \<Longrightarrow> list_all is_digit ds \<Longrightarrow> \<not> is_digit nd \<Longrightarrow> pattern_at version i ds"
  unfolding pattern_at_def by (intro exI [of _ pre] exI [of _ c] exI [of _ nd] exI [of _ rest]) simp

lemma pattern_atE:
  assumes "pattern_at version i ds"
  obtains pre c nd rest where
    "version = pre @ version_literal @ c @ ds @ nd # rest" "length pre = i" "c \<noteq> []"
    "snd (DecodeRuneInString (c @ ds @ nd # rest)) = length c"
    "fst (DecodeRuneInString (c @ ds @ nd # rest)) \<noteq> 0x0A"
    "ds \<noteq> []" "list_all is_digit ds" "\<not> is_digit nd"
  using assms unfolding pattern_at_def by (elim exE conjE) 

lemma pattern_match_here:
  assumes "pattern_at s 0 ds"
  shows "\<exists>m0. match_here s = [m0, ds]"
proof -
  from assms obtain pre c nd rest where
    s0: "s = pre @ version_literal @ c @ ds @ nd # rest" and pre: "length pre = 0" and c: "c \<noteq> []"
    and w: "snd (DecodeRuneInString (c @ ds @ nd # rest)) = length c"
    and r: "fst (DecodeRuneInString (c @ ds @ nd # rest)) \<noteq> 0x0A"
    and ds: "ds \<noteq> []" "list_all is_digit ds" "\<not> is_digit nd"
    by (rule pattern_atE)
  have s: "s = version_literal @ c @ ds @ nd # rest" using s0 pre by simp
  have p: "HasPrefix s version_literal" unfolding HasPrefix_iff using s by (rule exI)
  have d: "drop (length version_literal) s = c @ ds @ nd # rest" by (simp add: s)
  obtain r0 w0 where dec: "DecodeRuneInString (c @ ds @ nd # rest) = (r0, w0)"
    by (cases "DecodeRuneInString (c @ ds @ nd # rest)")
  with w r c have "w0 = length c" "r0 \<noteq> 0x0A" "w0 \<noteq> 0" by simp_all
  then have md: "match_dot (c @ ds @ nd # rest) = Some (ds @ nd # rest)"
    by (simp add: match_dot_def dec)
  have tw: "takeWhile is_digit (ds @ nd # rest) = ds" using ds by (simp add: takeWhile_digits)
  have dw: "dropWhile is_digit (ds @ nd # rest) = nd # rest" using ds by (simp add: dropWhile_digits)
  have mg: "match_digits (length (takeWhile is_digit (ds @ nd # rest))) (ds @ nd # rest)
          = Some (ds, drop (snd (DecodeRuneInString (nd # rest))) (nd # rest))"
    unfolding match_digits_greedy using ds(1) by (simp add: tw dw)
  show ?thesis using p by (simp add: match_here_def d md mg)
qed


lemma match_here_pattern:
  assumes "match_here s = [m0, ds]"
  shows "pattern_at s 0 ds"
proof -
  from assms have p: "HasPrefix s version_literal"
    by (auto simp: match_here_def split: if_splits)
  then obtain t where s: "s = version_literal @ t" by (auto simp: HasPrefix_iff)
  have dt: "drop (length version_literal) s = t" by (simp add: s)
  from assms p obtain s1 where md: "match_dot t = Some s1"
    by (auto simp: match_here_def dt split: option.splits)
  from assms p md obtain s2 where
    mg: "match_digits (length (takeWhile is_digit s1)) s1 = Some (ds, s2)"
    by (auto simp: match_here_def dt split: option.splits)
  obtain r w where d: "DecodeRuneInString t = (r, w)" by (cases "DecodeRuneInString t")
  from md d have w: "w \<noteq> 0" "r \<noteq> 0x0A" "s1 = drop w t"
    by (auto simp: match_dot_def split: if_splits)
  have wl: "w \<le> length t" using Decode_width_le [of t] d by simp
  from mg have g: "takeWhile is_digit s1 \<noteq> []" "dropWhile is_digit s1 \<noteq> []"
      "ds = takeWhile is_digit s1"
    unfolding match_digits_greedy by (auto split: if_splits)
  obtain nd rest where nr: "dropWhile is_digit s1 = nd # rest"
    using g(2) by (cases "dropWhile is_digit s1") auto
  have "\<not> is_digit (hd (dropWhile is_digit s1))" using g(2) by (rule hd_dropWhile)
  then have nd: "\<not> is_digit nd" by (simp add: nr)
  have "s1 = takeWhile is_digit s1 @ dropWhile is_digit s1" by simp
  then have s1: "s1 = ds @ nd # rest" using g(3) nr by simp
  have "t = take w t @ drop w t" by simp
  then have t: "t = take w t @ ds @ nd # rest" using w(3) s1 by simp
  have all: "list_all is_digit ds"
    unfolding g(3) list_all_iff by (auto dest: set_takeWhileD)
  have len: "length (take w t) = w" using wl by simp
  show ?thesis
  proof (rule pattern_atI [where pre = "[]" and c = "take w t" and nd = nd and rest = rest])
    show "s = [] @ version_literal @ take w t @ ds @ nd # rest" using s t by simp
    show "take w t \<noteq> []" using w(1) len by auto
    show "snd (DecodeRuneInString (take w t @ ds @ nd # rest)) = length (take w t)"
      using d t len by simp
    show "fst (DecodeRuneInString (take w t @ ds @ nd # rest)) \<noteq> 0x0A"
      using d t w(2) by simp
  qed (use g all nd in simp_all)
qed

lemma pattern_at_Cons: "pattern_at (x # xs) (Suc i) ds \<longleftrightarrow> pattern_at xs i ds"
proof
  assume "pattern_at (x # xs) (Suc i) ds"
  then obtain pre c nd rest where
    e: "x # xs = pre @ version_literal @ c @ ds @ nd # rest" and l: "length pre = Suc i"
    and o: "c \<noteq> []" "snd (DecodeRuneInString (c @ ds @ nd # rest)) = length c"
      "fst (DecodeRuneInString (c @ ds @ nd # rest)) \<noteq> 0x0A"
      "ds \<noteq> []" "list_all is_digit ds" "\<not> is_digit nd"
    by (rule pattern_atE)
  from l obtain p ps where pre: "pre = p # ps" by (cases pre) auto
  with e l have "xs = ps @ version_literal @ c @ ds @ nd # rest" "length ps = i" by auto
  then show "pattern_at xs i ds" using o by (rule pattern_atI)
next
  assume "pattern_at xs i ds"
  then obtain pre c nd rest where
    e: "xs = pre @ version_literal @ c @ ds @ nd # rest" and l: "length pre = i"
    and o: "c \<noteq> []" "snd (DecodeRuneInString (c @ ds @ nd # rest)) = length c"
      "fst (DecodeRuneInString (c @ ds @ nd # rest)) \<noteq> 0x0A"
      "ds \<noteq> []" "list_all is_digit ds" "\<not> is_digit nd"
    by (rule pattern_atE)
  from e l have "x # xs = (x # pre) @ version_literal @ c @ ds @ nd # rest" "length (x # pre) = Suc i"
    by auto
  then show "pattern_at (x # xs) (Suc i) ds" using o by (rule pattern_atI)
qed

lemma pattern_at_Nil: "\<not> pattern_at [] i ds"
  by (auto simp: pattern_at_def version_literal_def)

lemma FindSubmatch_shape: "FindSubmatch v = [] \<or> (\<exists>m0 ds. FindSubmatch v = [m0, ds])"
proof (induction v)
  case Nil
  show ?case using match_here_shape [of "[]"] by simp
next
  case (Cons c cs)
  show ?case using match_here_shape [of "c # cs"] Cons by (auto split: list.splits)
qed

lemma FindSubmatch_none: "FindSubmatch v = [] \<longleftrightarrow> (\<forall>i ds. \<not> pattern_at v i ds)"
proof (induction v)
  case Nil
  have "match_here [] = []" by (simp add: match_here_def HasPrefix_def version_literal_def)
  then show ?case by (simp add: pattern_at_Nil)
next
  case (Cons c cs)
  show ?case
  proof (cases "match_here (c # cs)")
    case Nil
    then have n0: "\<not> pattern_at (c # cs) 0 ds" for ds
      using pattern_match_here [of "c # cs" ds] by auto
    have "(\<forall>i ds. \<not> pattern_at (c # cs) i ds) \<longleftrightarrow> (\<forall>i ds. \<not> pattern_at cs i ds)"
    proof
      assume a: "\<forall>i ds. \<not> pattern_at (c # cs) i ds"
      show "\<forall>i ds. \<not> pattern_at cs i ds"
        using a pattern_at_Cons [of c cs] by blast
    next
      assume a: "\<forall>i ds. \<not> pattern_at cs i ds"
      show "\<forall>i ds. \<not> pattern_at (c # cs) i ds"
      proof (intro allI)
        fix i ds show "\<not> pattern_at (c # cs) i ds"
          using n0 a pattern_at_Cons [of c cs] by (cases i) auto
      qed
    qed
    then show ?thesis using Nil Cons by simp
  next
    case (Cons m ms)
    then obtain m0 ds where m: "match_here (c # cs) = [m0, ds]"
      using match_here_shape [of "c # cs"] by auto
    then have "pattern_at (c # cs) 0 ds" by (rule match_here_pattern)
    then show ?thesis using m by auto
  qed
qed

lemma FindSubmatch_leftmost:
  "pattern_at v i ds \<Longrightarrow> (\<And>j ds'. j < i \<Longrightarrow> \<not> pattern_at v j ds') \<Longrightarrow>
   \<exists>m0. FindSubmatch v = [m0, ds]"
proof (induction v arbitrary: i)
  case Nil
  then show ?case by (simp add: pattern_at_Nil)
next
  case (Cons c cs)
  show ?case
  proof (cases i)
    case 0
    then obtain m0 where "match_here (c # cs) = [m0, ds]"
      using Cons.prems(1) pattern_match_here by blast
    then show ?thesis by simp
  next
    case (Suc k)
    have "\<not> pattern_at (c # cs) 0 ds'" for ds'
      using Cons.prems(2) [of 0 ds'] Suc by simp
    then have n: "match_here (c # cs) = []"
      using match_here_shape [of "c # cs"] match_here_pattern [of "c # cs"] by blast
    have p: "pattern_at cs k ds" using Cons.prems(1) Suc by (simp add: pattern_at_Cons)
    have q: "\<not> pattern_at cs j ds'" if "j < k" for j ds'
      using Cons.prems(2) [of "Suc j" ds'] that Suc by (simp add: pattern_at_Cons)
    from Cons.IH [OF p q] show ?thesis using n by simp
  qed
qed


lemma Atoi_digits:
  assumes "bits = 32 \<or> bits = 64" "ds \<noteq> []" "list_all is_digit ds"
  shows "(8 \<le> fst (Atoi bits ds)) = (8 \<le> decimal ds)"
proof -
  obtain d rest where ds: "ds = d # rest" using assms(2) by (cases ds) auto
  with assms(3) have "is_digit d" by simp
  then have sign: "d \<noteq> CHR ''+''" "d \<noteq> CHR ''-''" by (auto simp: is_digit_def)
  have pu: "ParseUint ds = Some (decimal ds)" using assms(2,3) by (simp add: ParseUint_def)
  have c: "(8::nat) \<le> 2 ^ (bits - 1) - 1" "(8::nat) \<le> 2 ^ (bits - 1)"
    using assms(1) by auto
  show ?thesis
  proof (cases "decimal ds \<ge> 2 ^ (bits - 1)")
    case True
    then have "fst (Atoi bits ds) = int (2 ^ (bits - 1)) - 1"
      using sign pu by (simp add: Atoi_def ds Let_def)
    moreover have "8 \<le> int (2 ^ (bits - 1)) - 1" using c(1) by linarith
    moreover have "8 \<le> decimal ds" using True c(2) by linarith
    ultimately show ?thesis by simp
  next
    case False
    then have "fst (Atoi bits ds) = int (decimal ds)"
      using sign pu by (simp add: Atoi_def ds Let_def)
    then show ?thesis by simp
  qed
qed

text \<open>
  Claim C9. On a platform whose \<open>int\<close> has 32 or 64 bits, and for every input:
  \<open>isVersion18\<close> returns without a panic; when the input matches the pattern nowhere it
  returns false and logs the warning; when the input matches, with \<open>ds\<close> the digits
  captured by the leftmost match, it returns true exactly when the number \<open>ds\<close> is at
  least 8, and logs nothing.
\<close>

theorem isVersion18_spec:
  assumes "bits = 32 \<or> bits = 64"
  shows "(\<exists>r. isVersion18 bits version = Inr r)
    \<and> ((\<forall>i ds. \<not> pattern_at version i ds) \<longrightarrow>
         isVersion18 bits version = Inr (False, [Warning (''Failed to match '' @ version)]))
    \<and> (\<forall>i ds. pattern_at version i ds \<and> (\<forall>j ds'. j < i \<longrightarrow> \<not> pattern_at version j ds') \<longrightarrow>
         isVersion18 bits version = Inr (8 \<le> decimal ds, []))"
proof (intro conjI allI impI)
  show "\<exists>r. isVersion18 bits version = Inr r"
    using FindSubmatch_shape [of version]
    by (auto simp: isVersion18_def Let_def split: prod.splits)
next
  assume "\<forall>i ds. \<not> pattern_at version i ds"
  then have "FindSubmatch version = []" by (simp add: FindSubmatch_none)
  then show "isVersion18 bits version = Inr (False, [Warning (''Failed to match '' @ version)])"
    by (simp add: isVersion18_def)
next
  fix i ds
  assume a: "pattern_at version i ds \<and> (\<forall>j ds'. j < i \<longrightarrow> \<not> pattern_at version j ds')"
  then obtain m0 where m: "FindSubmatch version = [m0, ds]"
    using FindSubmatch_leftmost [of version i ds] by blast
  from a have d: "ds \<noteq> []" "list_all is_digit ds"
    by (auto elim: pattern_atE)
  have "(8 \<le> fst (Atoi bits ds)) = (8 \<le> decimal ds)"
    using assms d by (rule Atoi_digits)
  then show "isVersion18 bits version = Inr (8 \<le> decimal ds, [])"
    by (cases "Atoi bits ds") (simp add: isVersion18_def m)
qed

text \<open>
  Go 1.10 is recognised (the capture is \<open>10\<close>, not \<open>1\<close>); a version string that ends
  right after the digits is not matched, because the pattern asks for one more rune.
\<close>

theorem isVersion18_spec_witness:
  "pattern_at ''go version go1.10.2 linux/amd64'' 0 ''10''
   \<and> isVersion18 64 ''go version go1.10.2 linux/amd64'' = Inr (True, [])
   \<and> isVersion18 64 ''go version go1.8'' = Inr (False, [Warning ''Failed to match go version go1.8''])"
proof -
  have b: "(64::nat) = 32 \<or> (64::nat) = 64" by simp
  have p: "pattern_at ''go version go1.10.2 linux/amd64'' 0 ''10''"
    by (rule pattern_atI [where pre = "[]" and c = "''.''" and nd = "CHR ''.''" and rest = "''2 linux/amd64''"])
       (simp_all add: regexp_defs)
  have l: "\<forall>j ds'. j < (0::nat) \<longrightarrow> \<not> pattern_at ''go version go1.10.2 linux/amd64'' j ds'" by simp
  have n: "\<forall>i ds. \<not> pattern_at ''go version go1.8'' i ds"
    unfolding FindSubmatch_none [symmetric] by (simp add: regexp_defs)
  have d: "(8 \<le> decimal ''10'') = True" by (simp add: decimal_def digit_val_def)
  from isVersion18_spec [OF b, of "''go version go1.10.2 linux/amd64''"] p l
  have "isVersion18 64 ''go version go1.10.2 linux/amd64'' = Inr (8 \<le> decimal ''10'', [])"
    by blast
  moreover from isVersion18_spec [OF b, of "''go version go1.8''"] n
  have "isVersion18 64 ''go version go1.8'' = Inr (False, [Warning (''Failed to match '' @ ''go version go1.8'')])"
    by blast
  ultimately show ?thesis using p d by simp
qed

end
